theory Spec2Isabelle
  imports Main "HOL-Library.AList"
begin

section \<open>The data model of package lru\<close>

text \<open>
  The Go code keeps its entries in a \<^verbatim>\<open>container/list\<close> and shares the pointers to
  the list elements between three structures: the list itself, the key index
  \<^verbatim>\<open>items\<close> and the buckets of the tag index \<^verbatim>\<open>tags\<close>. Entries are
  mutated in place through these pointers, so the model has an explicit store: a pointer
  \<^verbatim>\<open>*list.Element\<close> is a natural number, and \<open>elems c ! p\<close> is the entry that
  the element \<open>p\<close> holds. Elements are allocated by appending to the store.

  \<^item> \<open>evictList\<close> is the list of element pointers, front (most recently used) first.
  \<^item> \<open>items\<close> is the Go map from key to element, as an association list (the code
    ranges over it in \<^verbatim>\<open>Purge\<close>).
  \<^item> \<open>tags\<close> maps a tag to its bucket. A bucket is a Go
    \<^verbatim>\<open>map[*list.Element]bool\<close> used as a set; it is a list without repetitions
    here, because the code ranges over it. Go leaves the order of such a range open; the
    model ranges in insertion order.
  \<^item> \<open>onEvict\<close> says whether a callback was given (it is \<^verbatim>\<open>nil\<close> otherwise);
    \<open>evicted\<close> records the calls made to it, oldest first.
  \<^item> \<open>size_c\<close> is the Go field \<^verbatim>\<open>size\<close>, an \<^verbatim>\<open>int\<close>.
\<close>

record ('k, 'v) entry =
  key :: 'k
  value_e :: 'v
  tags_e :: "string list"

record ('k, 'v) LRU =
  size_c :: int
  evictList :: "nat list"
  items :: "('k \<times> nat) list"
  tags :: "string \<rightharpoonup> nat list"
  onEvict :: bool
  elems :: "('k, 'v) entry list"
  evicted :: "('k \<times> 'v) list"

datatype error = MustProvidePositiveSize | IndexOutOfRange

subsection \<open>The operations of container/list that the cache uses\<close>

text \<open>
  \<^verbatim>\<open>MoveToFront\<close> and \<^verbatim>\<open>Remove\<close> of the Go standard library do nothing when
  the element is not (or no longer) an element of the list.
\<close>

definition list_PushFront :: "nat \<Rightarrow> nat list \<Rightarrow> nat list" where
  "list_PushFront el l = el # l"

definition list_MoveToFront :: "nat \<Rightarrow> nat list \<Rightarrow> nat list" where
  "list_MoveToFront el l = (if el \<in> set l then el # remove1 el l else l)"

definition list_Remove :: "nat \<Rightarrow> nat list \<Rightarrow> nat list" where
  "list_Remove el l = (if el \<in> set l then remove1 el l else l)"

definition list_Back :: "nat list \<Rightarrow> nat option" where
  "list_Back l = (if l = [] then None else Some (last l))"

subsection \<open>Machine integers\<close>

text \<open>
  A Go \<^verbatim>\<open>int\<close> has 64 bits on a 64-bit platform; \<open>wrap64\<close> is the value that a
  result outside that range wraps to. Lengths are far below \<open>2 ^ 63\<close> and are not wrapped.
\<close>

definition wrap64 :: "int \<Rightarrow> int" where
  "wrap64 x = (x + 2 ^ 63) mod 2 ^ 64 - 2 ^ 63"

section \<open>The cache core\<close>

definition NewLRU :: "int \<Rightarrow> bool \<Rightarrow> error + ('k, 'v) LRU" where
  "NewLRU sz cb =
     (if sz \<le> 0 then Inl MustProvidePositiveSize
      else Inr \<lparr>size_c = sz, evictList = [], items = [], tags = Map.empty,
                onEvict = cb, elems = [], evicted = []\<rparr>)"

definition call_onEvict :: "('k, 'v) LRU \<Rightarrow> 'k \<Rightarrow> 'v \<Rightarrow> ('k, 'v) LRU" where
  "call_onEvict c k v = (if onEvict c then c\<lparr>evicted := evicted c @ [(k, v)]\<rparr> else c)"

subsection \<open>The tag index\<close>

definition tag_step :: "nat \<Rightarrow> string \<Rightarrow> (string \<rightharpoonup> nat list) \<Rightarrow> (string \<rightharpoonup> nat list)" where
  "tag_step el t m =
     (let m1 = (case m t of None \<Rightarrow> m(t \<mapsto> []) | Some b \<Rightarrow> m)
      in case m1 t of
           None \<Rightarrow> m1
         | Some b \<Rightarrow> m1(t \<mapsto> (if el \<in> set b then b else b @ [el])))"

definition tag :: "('k, 'v) LRU \<Rightarrow> nat \<Rightarrow> string list \<Rightarrow> ('k, 'v) LRU" where
  "tag c el ts = c\<lparr>tags := fold (tag_step el) ts (tags c)\<rparr>"

text \<open>
  \<^verbatim>\<open>delete(c.tags[tag], el)\<close> does nothing on the nil map that a missing tag
  yields, and the length of that nil map is 0, so the missing tag is deleted again.
\<close>

definition untag_step :: "nat \<Rightarrow> string \<Rightarrow> (string \<rightharpoonup> nat list) \<Rightarrow> (string \<rightharpoonup> nat list)" where
  "untag_step el t m =
     (let m1 = (case m t of None \<Rightarrow> m | Some b \<Rightarrow> m(t \<mapsto> removeAll el b))
      in if length (case m1 t of None \<Rightarrow> [] | Some b \<Rightarrow> b) = 0 then m1(t := None) else m1)"

definition untag :: "('k, 'v) LRU \<Rightarrow> nat \<Rightarrow> string list \<Rightarrow> ('k, 'v) LRU" where
  "untag c el ts = c\<lparr>tags := fold (untag_step el) ts (tags c)\<rparr>"

subsection \<open>Removal\<close>

definition removeElement :: "('k, 'v) LRU \<Rightarrow> nat \<Rightarrow> ('k, 'v) LRU" where
  "removeElement c el =
     (let c1 = c\<lparr>evictList := list_Remove el (evictList c)\<rparr>;
          ent = elems c1 ! el;
          c2 = untag c1 el (tags_e ent);
          c3 = c2\<lparr>items := AList.delete (key ent) (items c2)\<rparr>
      in call_onEvict c3 (key ent) (value_e ent))"

definition removeOldest :: "('k, 'v) LRU \<Rightarrow> ('k, 'v) LRU" where
  "removeOldest c =
     (case list_Back (evictList c) of
        Some el \<Rightarrow> removeElement c el
      | None \<Rightarrow> c)"

subsection \<open>The public operations\<close>

text \<open>
  Every operation takes the cache and returns its result together with the cache after
  the call. A Go result \<^verbatim>\<open>(value, ok)\<close> is an option.
\<close>

definition Add :: "('k, 'v) LRU \<Rightarrow> 'k \<Rightarrow> 'v \<Rightarrow> string list \<Rightarrow> bool \<times> ('k, 'v) LRU" where
  "Add c k v ts =
     (case map_of (items c) k of
        Some el \<Rightarrow>
          (let c1 = c\<lparr>evictList := list_MoveToFront el (evictList c)\<rparr>;
               c2 = untag c1 el ts;
               c3 = c2\<lparr>elems := (elems c2)[el := (elems c2 ! el)\<lparr>value_e := v\<rparr>]\<rparr>;
               c4 = c3\<lparr>elems := (elems c3)[el := (elems c3 ! el)\<lparr>tags_e := ts\<rparr>]\<rparr>;
               c5 = tag c4 el ts
           in (False, c5))
      | None \<Rightarrow>
          (let el = length (elems c);
               c1 = c\<lparr>elems := elems c @ [\<lparr>key = k, value_e = v, tags_e = ts\<rparr>],
                      evictList := list_PushFront el (evictList c)\<rparr>;
               c2 = tag c1 el ts;
               c3 = c2\<lparr>items := AList.update k el (items c2)\<rparr>;
               evict = (int (length (evictList c3)) > size_c c3)
           in if evict then (evict, removeOldest c3) else (evict, c3)))"

definition Get :: "('k, 'v) LRU \<Rightarrow> 'k \<Rightarrow> 'v option \<times> ('k, 'v) LRU" where
  "Get c k =
     (case map_of (items c) k of
        Some el \<Rightarrow> (Some (value_e (elems c ! el)),
                    c\<lparr>evictList := list_MoveToFront el (evictList c)\<rparr>)
      | None \<Rightarrow> (None, c))"

definition Contains :: "('k, 'v) LRU \<Rightarrow> 'k \<Rightarrow> bool" where
  "Contains c k = (map_of (items c) k \<noteq> None)"

definition Peek :: "('k, 'v) LRU \<Rightarrow> 'k \<Rightarrow> 'v option" where
  "Peek c k =
     (case map_of (items c) k of
        Some el \<Rightarrow> Some (value_e (elems c ! el))
      | None \<Rightarrow> None)"

definition Remove :: "('k, 'v) LRU \<Rightarrow> 'k \<Rightarrow> bool \<times> ('k, 'v) LRU" where
  "Remove c k =
     (case map_of (items c) k of
        Some el \<Rightarrow> (True, removeElement c el)
      | None \<Rightarrow> (False, c))"

definition RemoveOldest :: "('k, 'v) LRU \<Rightarrow> ('k \<times> 'v) option \<times> ('k, 'v) LRU" where
  "RemoveOldest c =
     (case list_Back (evictList c) of
        Some el \<Rightarrow>
          (let c1 = removeElement c el; ent = elems c1 ! el
           in (Some (key ent, value_e ent), c1))
      | None \<Rightarrow> (None, c))"

definition GetOldest :: "('k, 'v) LRU \<Rightarrow> ('k \<times> 'v) option" where
  "GetOldest c =
     (case list_Back (evictList c) of
        Some el \<Rightarrow> (let ent = elems c ! el in Some (key ent, value_e ent))
      | None \<Rightarrow> None)"

definition Len :: "('k, 'v) LRU \<Rightarrow> nat" where
  "Len c = length (evictList c)"

text \<open>
  \<^verbatim>\<open>Keys\<close> allocates a slice of \<^verbatim>\<open>len(c.items)\<close> nil values and writes the
  key of every list element into it, from the back of the list to the front. Writing beyond
  the end of the slice panics.
\<close>

definition Keys :: "('k, 'v) LRU \<Rightarrow> error + 'k option list" where
  "Keys c =
     (let n = length (items c);
          ks = map (\<lambda>el. key (elems c ! el)) (rev (evictList c))
      in if length ks > n then Inl IndexOutOfRange
         else Inr (map Some ks @ replicate (n - length ks) None))"

fun Resize_loop :: "nat \<Rightarrow> ('k, 'v) LRU \<Rightarrow> ('k, 'v) LRU" where
  "Resize_loop 0 c = c"
| "Resize_loop (Suc n) c = Resize_loop n (removeOldest c)"

definition Resize :: "('k, 'v) LRU \<Rightarrow> int \<Rightarrow> int \<times> ('k, 'v) LRU" where
  "Resize c sz =
     (let diff0 = wrap64 (int (Len c) - sz);
          diff = (if diff0 < 0 then 0 else diff0);
          c1 = Resize_loop (nat diff) c
      in (diff, c1\<lparr>size_c := sz\<rparr>))"

fun Invalidate_bucket :: "nat list \<Rightarrow> ('k, 'v) LRU \<Rightarrow> int \<Rightarrow> ('k, 'v) LRU \<times> int" where
  "Invalidate_bucket [] c removed = (c, removed)"
| "Invalidate_bucket (el # els) c removed =
     Invalidate_bucket els (removeElement c el) (removed + 1)"

fun Invalidate_loop :: "string list \<Rightarrow> ('k, 'v) LRU \<Rightarrow> int \<Rightarrow> ('k, 'v) LRU \<times> int" where
  "Invalidate_loop [] c removed = (c, removed)"
| "Invalidate_loop (t # ts) c removed =
     (case tags c t of
        Some els \<Rightarrow>
          (case Invalidate_bucket els c removed of
             (c1, removed1) \<Rightarrow> Invalidate_loop ts c1 removed1)
      | None \<Rightarrow> Invalidate_loop ts c removed)"

definition Invalidate :: "('k, 'v) LRU \<Rightarrow> string list \<Rightarrow> int \<times> ('k, 'v) LRU" where
  "Invalidate c ts = (case Invalidate_loop ts c 0 of (c1, removed) \<Rightarrow> (removed, c1))"

fun FindByTags_loop :: "('k, 'v) LRU \<Rightarrow> string list \<Rightarrow> 'k list \<Rightarrow> 'k list" where
  "FindByTags_loop c [] ks = ks"
| "FindByTags_loop c (t # ts) ks =
     (case tags c t of
        Some els \<Rightarrow> FindByTags_loop c ts (ks @ map (\<lambda>el. key (elems c ! el)) els)
      | None \<Rightarrow> FindByTags_loop c ts ks)"

definition FindByTags :: "('k, 'v) LRU \<Rightarrow> string list \<Rightarrow> 'k list" where
  "FindByTags c ts = FindByTags_loop c ts []"

fun Purge_loop :: "('k \<times> nat) list \<Rightarrow> ('k, 'v) LRU \<Rightarrow> ('k, 'v) LRU" where
  "Purge_loop [] c = c"
| "Purge_loop ((k, v) # rest) c =
     Purge_loop rest
       ((call_onEvict c k (value_e (elems c ! v)))\<lparr>items := AList.delete k (items c)\<rparr>)"

definition Purge :: "('k, 'v) LRU \<Rightarrow> ('k, 'v) LRU" where
  "Purge c = (Purge_loop (items c) c)\<lparr>evictList := [], tags := Map.empty\<rparr>"


section \<open>The locked cache\<close>

text \<open>
  \<^verbatim>\<open>Cache\<close> holds the core and a lock. Each of its methods takes the lock, calls the
  method of the same name on the core and releases the lock, so calls never overlap and
  a sequence of calls on the cache is that sequence on the core. Its constructors hand
  the size and the callback to \<^verbatim>\<open>NewLRU\<close> and pass its error on.
\<close>

definition NewWithEvict :: "int \<Rightarrow> bool \<Rightarrow> error + ('k, 'v) LRU" where
  "NewWithEvict sz onEvicted =
     (case NewLRU sz onEvicted of Inl err \<Rightarrow> Inl err | Inr lru \<Rightarrow> Inr lru)"

definition New :: "int \<Rightarrow> error + ('k, 'v) LRU" where
  "New sz = NewWithEvict sz False"

section \<open>Sequences of calls\<close>

text \<open>
  A reachable cache is what a sequence of calls of the public operations makes of a cache
  that the constructor returned. \<open>step\<close> is the cache after one call, \<open>run\<close> the cache
  after a sequence of calls. \<^verbatim>\<open>Peek\<close>, \<^verbatim>\<open>Contains\<close> and
  \<^verbatim>\<open>FindByTags\<close> only read the cache.
\<close>

datatype ('k, 'v) call =
    CallAdd 'k 'v "string list"
  | CallGet 'k
  | CallPeek 'k
  | CallContains 'k
  | CallRemove 'k
  | CallRemoveOldest
  | CallResize int
  | CallInvalidate "string list"
  | CallFindByTags "string list"
  | CallPurge

fun step :: "('k, 'v) LRU \<Rightarrow> ('k, 'v) call \<Rightarrow> ('k, 'v) LRU" where
  "step c (CallAdd k v ts) = snd (Add c k v ts)"
| "step c (CallGet k) = snd (Get c k)"
| "step c (CallPeek k) = c"
| "step c (CallContains k) = c"
| "step c (CallRemove k) = snd (Remove c k)"
| "step c CallRemoveOldest = snd (RemoveOldest c)"
| "step c (CallResize n) = snd (Resize c n)"
| "step c (CallInvalidate ts) = snd (Invalidate c ts)"
| "step c (CallFindByTags ts) = c"
| "step c CallPurge = Purge c"

fun run :: "('k, 'v) LRU \<Rightarrow> ('k, 'v) call list \<Rightarrow> ('k, 'v) LRU" where
  "run c [] = c"
| "run c (x # xs) = run (step c x) xs"

section \<open>Consistency of the three structures\<close>

text \<open>
  \<open>invar\<close> says that the list, the key index and the tag index describe the same
  entries: the list has no element twice and only allocated elements; the key index has
  no key twice, and it maps \<open>k\<close> to \<open>e\<close> exactly when \<open>e\<close> is an element of the list
  whose entry has the key \<open>k\<close>; a bucket has no element twice, and each of its elements
  is an element of the list whose entry carries the tag of the bucket.
\<close>

definition invar :: "('k, 'v) LRU \<Rightarrow> bool" where
  "invar c \<longleftrightarrow>
     distinct (evictList c)
   \<and> (\<forall>e\<in>set (evictList c). e < length (elems c))
   \<and> distinct (map fst (items c))
   \<and> (\<forall>k e. (k, e) \<in> set (items c) \<longleftrightarrow> e \<in> set (evictList c) \<and> key (elems c ! e) = k)
   \<and> (\<forall>t b. tags c t = Some b \<longrightarrow>
          distinct b \<and> (\<forall>e\<in>set b. e \<in> set (evictList c) \<and> t \<in> set (tags_e (elems c ! e))))"

text \<open>The list is not longer than the capacity, and the capacity is a Go \<^verbatim>\<open>int\<close>.\<close>

definition bounded :: "('k, 'v) LRU \<Rightarrow> bool" where
  "bounded c \<longleftrightarrow> int (length (evictList c)) \<le> size_c c \<and> size_c c < 2 ^ 63"

text \<open>
  The calls for which the consistency is proved: \<^verbatim>\<open>Add\<close> on an existing key is
  given at least the tags the entry has, and \<^verbatim>\<open>Resize\<close> is given a capacity that
  is not negative (and is a Go \<^verbatim>\<open>int\<close>). Every other call is admitted.
\<close>

fun call_ok :: "('k, 'v) LRU \<Rightarrow> ('k, 'v) call \<Rightarrow> bool" where
  "call_ok c (CallAdd k v ts) =
     (case map_of (items c) k of
        None \<Rightarrow> True
      | Some el \<Rightarrow> set (tags_e (elems c ! el)) \<subseteq> set ts)"
| "call_ok c (CallResize n) = (0 \<le> n \<and> n < 2 ^ 63)"
| "call_ok c (CallGet k) = True"
| "call_ok c (CallPeek k) = True"
| "call_ok c (CallContains k) = True"
| "call_ok c (CallRemove k) = True"
| "call_ok c CallRemoveOldest = True"
| "call_ok c (CallInvalidate ts) = True"
| "call_ok c (CallFindByTags ts) = True"
| "call_ok c CallPurge = True"

fun calls_ok :: "('k, 'v) LRU \<Rightarrow> ('k, 'v) call list \<Rightarrow> bool" where
  "calls_ok c [] = True"
| "calls_ok c (x # xs) = (call_ok c x \<and> calls_ok (step c x) xs)"

text \<open>
  The part of the consistency that does not speak of the tag index: the list has no
  element twice and only allocated elements, the key index has no key twice, and every
  pair \<open>(k, e)\<close> of the key index names an element of the list whose entry has the key
  \<open>k\<close>.
\<close>

definition wf_index :: "('k, 'v) LRU \<Rightarrow> bool" where
  "wf_index c \<longleftrightarrow>
     distinct (evictList c)
   \<and> (\<forall>e\<in>set (evictList c). e < length (elems c))
   \<and> distinct (map fst (items c))
   \<and> (\<forall>(k, e)\<in>set (items c). e \<in> set (evictList c) \<and> key (elems c ! e) = k)"


section \<open>Notions used to state the properties\<close>

text \<open>The key and the value of the entry that an element holds.\<close>

definition entry_kv :: "('k, 'v) LRU \<Rightarrow> nat \<Rightarrow> 'k \<times> 'v" where
  "entry_kv c el = (key (elems c ! el), value_e (elems c ! el))"

text \<open>The entry that \<^verbatim>\<open>Add\<close> allocates for a new key.\<close>

definition new_entry :: "'k \<times> 'v \<times> string list \<Rightarrow> ('k, 'v) entry" where
  "new_entry x = (case x of (k, v, ts) \<Rightarrow> \<lparr>key = k, value_e = v, tags_e = ts\<rparr>)"

text \<open>
  A sequence of \<^verbatim>\<open>Add\<close> calls: the results of the calls in order, and the cache after
  the last one.
\<close>

fun Add_all :: "('k, 'v) LRU \<Rightarrow> ('k \<times> 'v \<times> string list) list \<Rightarrow> bool list \<times> ('k, 'v) LRU" where
  "Add_all c [] = ([], c)"
| "Add_all c ((k, v, ts) # rest) =
     (case Add c k v ts of
        (e, c1) \<Rightarrow> (case Add_all c1 rest of (es, c2) \<Rightarrow> (e # es, c2)))"

text \<open>The cache that the constructor returns for a positive size.\<close>

abbreviation emptyLRU :: "int \<Rightarrow> bool \<Rightarrow> ('k, 'v) LRU" where
  "emptyLRU sz cb \<equiv>
     \<lparr>size_c = sz, evictList = [], items = [], tags = Map.empty,
      onEvict = cb, elems = [], evicted = []\<rparr>"

section \<open>What each operation does to each field\<close>

lemma NewLRU_Inr:
  "NewLRU n cb = Inr c \<Longrightarrow>
     0 < n \<and> c = \<lparr>size_c = n, evictList = [], items = [], tags = Map.empty,
                onEvict = cb, elems = [], evicted = []\<rparr>"
  by (simp add: NewLRU_def split: if_splits)

lemma tag_step_eq:
  "tag_step el t m =
     m(t \<mapsto> (case m t of None \<Rightarrow> [el] | Some b \<Rightarrow> if el \<in> set b then b else b @ [el]))"
  by (simp add: tag_step_def split: option.splits)

lemma untag_step_eq:
  "untag_step el t m =
     (case m t of
        None \<Rightarrow> m
      | Some b \<Rightarrow> if removeAll el b = [] then m(t := None) else m(t \<mapsto> removeAll el b))"
  by (auto simp add: untag_step_def Let_def split: option.splits)

lemma tag_fields [simp]:
  "size_c (tag c el ts) = size_c c"
  "evictList (tag c el ts) = evictList c"
  "items (tag c el ts) = items c"
  "tags (tag c el ts) = fold (tag_step el) ts (tags c)"
  "onEvict (tag c el ts) = onEvict c"
  "elems (tag c el ts) = elems c"
  "evicted (tag c el ts) = evicted c"
  by (simp_all add: tag_def)

lemma untag_fields [simp]:
  "size_c (untag c el ts) = size_c c"
  "evictList (untag c el ts) = evictList c"
  "items (untag c el ts) = items c"
  "tags (untag c el ts) = fold (untag_step el) ts (tags c)"
  "onEvict (untag c el ts) = onEvict c"
  "elems (untag c el ts) = elems c"
  "evicted (untag c el ts) = evicted c"
  by (simp_all add: untag_def)

lemma call_onEvict_fields [simp]:
  "size_c (call_onEvict c k v) = size_c c"
  "evictList (call_onEvict c k v) = evictList c"
  "items (call_onEvict c k v) = items c"
  "tags (call_onEvict c k v) = tags c"
  "onEvict (call_onEvict c k v) = onEvict c"
  "elems (call_onEvict c k v) = elems c"
  "evicted (call_onEvict c k v) = (if onEvict c then evicted c @ [(k, v)] else evicted c)"
  by (simp_all add: call_onEvict_def)

lemma list_Remove_eq [simp]: "list_Remove el l = remove1 el l"
  by (simp add: list_Remove_def remove1_idem)

lemma removeElement_fields [simp]:
  "size_c (removeElement c el) = size_c c"
  "evictList (removeElement c el) = remove1 el (evictList c)"
  "items (removeElement c el) = AList.delete (key (elems c ! el)) (items c)"
  "tags (removeElement c el) = fold (untag_step el) (tags_e (elems c ! el)) (tags c)"
  "onEvict (removeElement c el) = onEvict c"
  "elems (removeElement c el) = elems c"
  "evicted (removeElement c el) =
     (if onEvict c then evicted c @ [(key (elems c ! el), value_e (elems c ! el))]
      else evicted c)"
  by (simp_all add: removeElement_def Let_def)

lemma removeOldest_eq:
  "removeOldest c = (if evictList c = [] then c else removeElement c (last (evictList c)))"
  by (simp add: removeOldest_def list_Back_def)

lemma Add_existing:
  assumes "map_of (items c) k = Some el"
  shows "Add c k v ts =
    (False, c\<lparr>evictList := list_MoveToFront el (evictList c),
               tags := fold (tag_step el) ts (fold (untag_step el) ts (tags c)),
               elems := (elems c)[el := (elems c ! el)\<lparr>value_e := v, tags_e := ts\<rparr>]\<rparr>)"
proof (cases "el < length (elems c)")
  case True
  with assms show ?thesis by (cases c) (simp add: Add_def Let_def tag_def untag_def)
next
  case False
  then have "\<And>x. (elems c)[el := x] = elems c" by (simp add: list_update_beyond)
  with assms show ?thesis by (cases c) (simp add: Add_def Let_def tag_def untag_def)
qed

lemma Add_new:
  assumes "map_of (items c) k = None"
  shows "Add c k v ts =
    (let c3 = c\<lparr>evictList := length (elems c) # evictList c,
                  items := AList.update k (length (elems c)) (items c),
                  tags := fold (tag_step (length (elems c))) ts (tags c),
                  elems := elems c @ [\<lparr>key = k, value_e = v, tags_e = ts\<rparr>]\<rparr>
     in if size_c c < int (length (evictList c)) + 1 then (True, removeOldest c3)
        else (False, c3))"
  using assms by (cases c) (simp add: Add_def Let_def tag_def list_PushFront_def)

lemma removeElement_eq:
  "removeElement c el =
     c\<lparr>evictList := remove1 el (evictList c),
       items := AList.delete (key (elems c ! el)) (items c),
       tags := fold (untag_step el) (tags_e (elems c ! el)) (tags c),
       evicted := (if onEvict c
                   then evicted c @ [(key (elems c ! el), value_e (elems c ! el))]
                   else evicted c)\<rparr>"
  by (cases c) (simp add: removeElement_def Let_def untag_def call_onEvict_def)

lemma Add_eq:
  "Add c k v ts =
     (case map_of (items c) k of
        Some el \<Rightarrow>
          (False, c\<lparr>evictList := list_MoveToFront el (evictList c),
               tags := fold (tag_step el) ts (fold (untag_step el) ts (tags c)),
               elems := (elems c)[el := (elems c ! el)\<lparr>value_e := v, tags_e := ts\<rparr>]\<rparr>)
      | None \<Rightarrow>
          (size_c c < int (length (evictList c)) + 1,
           (if size_c c < int (length (evictList c)) + 1 then removeOldest else id)
             (c\<lparr>evictList := length (elems c) # evictList c,
                  items := AList.update k (length (elems c)) (items c),
                  tags := fold (tag_step (length (elems c))) ts (tags c),
                  elems := elems c @ [\<lparr>key = k, value_e = v, tags_e = ts\<rparr>]\<rparr>)))"
  by (simp add: Add_existing Add_new Let_def split: option.splits)

text \<open>The equations that evaluate a sequence of calls on a given cache.\<close>

lemmas exec =
  Add_eq removeElement_eq removeOldest_eq Get_def Remove_def Invalidate_def
  list_MoveToFront_def tag_step_eq untag_step_eq

section \<open>Re-adding a key with other tags\<close>

text \<open>
  Claim C1. After \<^verbatim>\<open>Add(k, v1, "a")\<close> and \<^verbatim>\<open>Add(k, v2, "b")\<close> the tags of \<open>k\<close>
  should be replaced: \<^verbatim>\<open>FindByTags(["a"])\<close> without \<open>k\<close>, \<^verbatim>\<open>FindByTags(["b"])\<close>
  with \<open>k\<close>. The code does not do this. On an existing key \<^verbatim>\<open>Add\<close> calls
  \<^verbatim>\<open>c.untag(el, tags)\<close> with the new tags, not with the tags the entry had, so
  the element stays in the bucket of \<open>a\<close>: on every cache the constructor returns,
  \<^verbatim>\<open>FindByTags(["a"])\<close> still answers \<open>k\<close> after the two calls.
\<close>

theorem Add_leaves_old_tag:
  assumes "NewLRU n cb = Inr c"
  shows "FindByTags (run c [CallAdd k v1 [''a''], CallAdd k v2 [''b'']]) [''a''] = [k]
       \<and> FindByTags (run c [CallAdd k v1 [''a''], CallAdd k v2 [''b'']]) [''b''] = [k]"
  using NewLRU_Inr[OF assms] by (simp add: exec FindByTags_def)

theorem Add_leaves_old_tag_witness:
  "NewLRU 1 False = Inr (emptyLRU 1 False)
   \<and> FindByTags (run (emptyLRU 1 False)
        [CallAdd ''k'' (1::nat) [''a''], CallAdd ''k'' 2 [''b'']]) [''a''] = [''k'']"
  using Add_leaves_old_tag[of 1 False "emptyLRU 1 False" "''k''" "1::nat" 2]
  by (simp add: NewLRU_def)

text \<open>
  Claim C2. In every reachable cache an element should be in the bucket of a tag exactly
  when the tag is among the tags of its entry. The same two calls give a reachable cache
  where this fails: element 0 is the only element of the list, its entry has the tags
  \<open>[b]\<close>, and the bucket of \<open>a\<close> still holds element 0.
\<close>

theorem stale_bucket_reachable:
  assumes "NewLRU n cb = Inr c"
  shows "evictList (run c [CallAdd k v1 [''a''], CallAdd k v2 [''b'']]) = [0]
       \<and> tags_e (elems (run c [CallAdd k v1 [''a''], CallAdd k v2 [''b'']]) ! 0) = [''b'']
       \<and> tags (run c [CallAdd k v1 [''a''], CallAdd k v2 [''b'']]) ''a'' = Some [0]"
  using NewLRU_Inr[OF assms] by (simp add: exec)

theorem stale_bucket_reachable_witness:
  "NewLRU 1 False = Inr (emptyLRU 1 False)
   \<and> tags (run (emptyLRU 1 False)
        [CallAdd ''k'' (1::nat) [''a''], CallAdd ''k'' 2 [''b'']]) ''a'' = Some [0]"
  using stale_bucket_reachable[of 1 False "emptyLRU 1 False" "''k''" "1::nat" 2]
  by (simp add: NewLRU_def)

text \<open>
  Claim C3. Every entry that is destroyed should make the eviction callback fire exactly
  once. The stale bucket breaks this: after the two calls above, \<^verbatim>\<open>Remove(k)\<close>
  destroys the entry and fires the callback, and \<^verbatim>\<open>Invalidate(["a"])\<close> finds
  the removed element in the bucket of \<open>a\<close> and fires the callback for it again. One
  element was ever allocated, and the callback ran twice for it.
\<close>

theorem callback_fires_twice:
  assumes "NewLRU n True = Inr c"
  shows "evicted (run c [CallAdd k v1 [''a''], CallAdd k v2 [''b''], CallRemove k,
                         CallInvalidate [''a'']]) = [(k, v2), (k, v2)]
       \<and> length (elems (run c [CallAdd k v1 [''a''], CallAdd k v2 [''b''], CallRemove k,
                         CallInvalidate [''a'']])) = 1"
  using NewLRU_Inr[OF assms] by (simp add: exec)

theorem callback_fires_twice_witness:
  "NewLRU 1 True = Inr (emptyLRU 1 True)
   \<and> evicted (run (emptyLRU 1 True)
        [CallAdd ''k'' (1::nat) [''a''], CallAdd ''k'' 2 [''b''], CallRemove ''k'',
         CallInvalidate [''a'']]) = [(''k'', 2), (''k'', 2)]"
  using callback_fires_twice[of 1 "emptyLRU 1 True" "''k''" "1::nat" 2]
  by (simp add: NewLRU_def)

section \<open>Recency\<close>

text \<open>
  Claim C7. On a new cache of capacity 2, \<^verbatim>\<open>Add(a); Add(b); Get(a); Add(c)\<close> with
  three different keys evicts \<open>b\<close> and keeps \<open>a\<close>: the last \<^verbatim>\<open>Add\<close> reports an
  eviction, \<open>a\<close> and \<open>c\<close> are contained afterwards and \<open>b\<close> is not, and the
  callback (when there is one) fired for \<open>b\<close> only. Values and tags are arbitrary.
\<close>

theorem Get_protects_from_eviction:
  assumes "NewLRU 2 cb = Inr c0" and "distinct [a, b, c]"
    and "Add c0 a va ta = (e1, c1)" and "Add c1 b vb tb = (e2, c2)"
    and "Get c2 a = (g, c3)" and "Add c3 c vc tc = (e4, c4)"
  shows "Contains c4 a \<and> Contains c4 c \<and> \<not> Contains c4 b
       \<and> \<not> e1 \<and> \<not> e2 \<and> g = Some va \<and> e4
       \<and> evicted c4 = (if cb then [(b, vb)] else [])"
  using assms(2-) NewLRU_Inr[OF assms(1)]
  by (auto simp add: Add_eq removeElement_eq removeOldest_eq Get_def list_MoveToFront_def
        Contains_def)

theorem Get_protects_from_eviction_witness:
  "NewLRU 2 True = Inr (emptyLRU 2 True) \<and> distinct [''a'', ''b'', ''c'']
   \<and> Contains (run (emptyLRU 2 True)
        [CallAdd ''a'' (1::nat) [], CallAdd ''b'' 2 [], CallGet ''a'', CallAdd ''c'' 3 []]) ''a''
   \<and> \<not> Contains (run (emptyLRU 2 True)
        [CallAdd ''a'' (1::nat) [], CallAdd ''b'' 2 [], CallGet ''a'', CallAdd ''c'' 3 []]) ''b''"
  using Get_protects_from_eviction[of True "emptyLRU 2 True" "''a''" "''b''" "''c''"
     "1::nat" "[]"
     "fst (Add (emptyLRU 2 True) ''a'' (1::nat) [])"
     "snd (Add (emptyLRU 2 True) ''a'' (1::nat) [])"
     2 "[]"
     "fst (Add (snd (Add (emptyLRU 2 True) ''a'' (1::nat) [])) ''b'' 2 [])"
     "snd (Add (snd (Add (emptyLRU 2 True) ''a'' (1::nat) [])) ''b'' 2 [])"
     "fst (Get (snd (Add (snd (Add (emptyLRU 2 True) ''a'' (1::nat) [])) ''b'' 2 [])) ''a'')"
     "snd (Get (snd (Add (snd (Add (emptyLRU 2 True) ''a'' (1::nat) [])) ''b'' 2 [])) ''a'')"
     3 "[]"
     "fst (Add (snd (Get (snd (Add (snd (Add (emptyLRU 2 True) ''a'' (1::nat) [])) ''b'' 2 []))
          ''a'')) ''c'' 3 [])"
     "snd (Add (snd (Get (snd (Add (snd (Add (emptyLRU 2 True) ''a'' (1::nat) [])) ''b'' 2 []))
          ''a'')) ''c'' 3 [])"]
  by (simp add: NewLRU_def)

section \<open>Failing operations\<close>

lemma NewLRU_fails_iff: "(\<exists>e. NewLRU n cb = Inl e) \<longleftrightarrow> n \<le> 0"
  by (simp add: NewLRU_def)

lemma NewWithEvict_fails_iff: "(\<exists>e. NewWithEvict n cb = Inl e) \<longleftrightarrow> n \<le> 0"
  by (simp add: NewWithEvict_def NewLRU_def)

lemma New_fails_iff: "(\<exists>e. New n = Inl e) \<longleftrightarrow> n \<le> 0"
  by (simp add: New_def NewWithEvict_def NewLRU_def)

text \<open>
  Claim C9. The constructor fails exactly for a size that is not positive, and no other
  operation should fail. The first half holds (\<open>NewLRU_fails_iff\<close>, \<open>New_fails_iff\<close>). The second half
  fails on a reachable cache: once the bucket of \<open>a\<close> holds a removed element with key
  \<open>k\<close>, and \<open>k\<close> is added again, \<^verbatim>\<open>Invalidate(["a"])\<close> deletes the new entry
  from the key index \<^verbatim>\<open>items\<close> and leaves its element in the list. The list is
  then longer than the key index, and \<^verbatim>\<open>Keys\<close> writes beyond the slice it made
  with \<^verbatim>\<open>len(c.items)\<close> places: the Go runtime panics.
\<close>

theorem Keys_panics:
  assumes "NewLRU n cb = Inr c"
  shows "Keys (run c [CallAdd k v1 [''a''], CallAdd k v2 [''b''], CallRemove k,
                      CallAdd k v3 [], CallInvalidate [''a'']]) = Inl IndexOutOfRange"
  using NewLRU_Inr[OF assms] by (simp add: exec Keys_def)

theorem Keys_panics_witness:
  "NewLRU 2 False = Inr (emptyLRU 2 False)
   \<and> Keys (run (emptyLRU 2 False)
        [CallAdd ''k'' (1::nat) [''a''], CallAdd ''k'' 2 [''b''], CallRemove ''k'',
         CallAdd ''k'' 3 [], CallInvalidate [''a'']]) = Inl IndexOutOfRange"
  using Keys_panics[of 2 False "emptyLRU 2 False" "''k''" "1::nat" 2 3]
  by (simp add: NewLRU_def)

section \<open>Resize\<close>

lemma remove1_last: "distinct l \<Longrightarrow> l \<noteq> [] \<Longrightarrow> remove1 (last l) l = butlast l"
proof -
  assume d: "distinct l" and ne: "l \<noteq> []"
  then have l: "l = butlast l @ [last l]" by simp
  with d have "last l \<notin> set (butlast l)" by (metis distinct_butlast disjoint_iff distinct_append list.set_intros(1))
  then have "remove1 (last l) (butlast l @ [last l]) = butlast l" by (simp add: remove1_append)
  with l show ?thesis by simp
qed

lemma removeOldest_fields:
  assumes "distinct (evictList c)"
  shows "evictList (removeOldest c) = butlast (evictList c)"
    and "size_c (removeOldest c) = size_c c"
    and "onEvict (removeOldest c) = onEvict c"
    and "elems (removeOldest c) = elems c"
    and "evicted (removeOldest c) = evicted c @ (if onEvict c then map (entry_kv c) (take 1 (rev (evictList c))) else [])"
    and "items (removeOldest c) = filter (\<lambda>p. fst p \<notin> set (map (\<lambda>el. key (elems c ! el)) (take 1 (rev (evictList c))))) (items c)"
  using assms by (auto simp add: removeOldest_eq remove1_last entry_kv_def take_Suc hd_rev AList.delete_eq split: list.splits intro: filter_cong)

lemma Resize_loop_fields:
  assumes "distinct (evictList c)"
  shows "evictList (Resize_loop n c) = take (length (evictList c) - n) (evictList c)
    \<and> size_c (Resize_loop n c) = size_c c
    \<and> onEvict (Resize_loop n c) = onEvict c
    \<and> elems (Resize_loop n c) = elems c
    \<and> evicted (Resize_loop n c) = evicted c @ (if onEvict c then map (entry_kv c) (take n (rev (evictList c))) else [])
    \<and> items (Resize_loop n c) = filter (\<lambda>p. fst p \<notin> set (map (\<lambda>el. key (elems c ! el)) (take n (rev (evictList c))))) (items c)"
  using assms
proof (induction n arbitrary: c)
  case 0
  then show ?case by simp
next
  case (Suc n)
  let ?c = "removeOldest c"
  have d: "distinct (evictList ?c)" using Suc.prems by (simp add: removeOldest_fields distinct_butlast)
  note IH = Suc.IH[OF d]
  have kv: "entry_kv ?c = entry_kv c" by (rule ext) (simp add: entry_kv_def removeOldest_fields[OF Suc.prems])
  have tk: "take (Suc n) (rev (evictList c)) = take 1 (rev (evictList c)) @ take n (rev (butlast (evictList c)))"
    by (cases "evictList c" rule: rev_cases) simp_all
  have tb: "take (length (evictList c) - Suc n) (butlast (evictList c)) =
            take (length (evictList c) - Suc n) (evictList c)"
    by (cases "evictList c = []") (simp_all add: take_butlast)
  show ?case
    using IH by (auto simp add: removeOldest_fields[OF Suc.prems] kv tk tb simp del: take_Suc_Cons intro: filter_cong)
qed

lemma Add_all_Cons:
  "Add_all c ((k, v, ts) # rest) =
     (fst (Add c k v ts) # fst (Add_all (snd (Add c k v ts)) rest),
      snd (Add_all (snd (Add c k v ts)) rest))"
  by (simp split: prod.splits)

lemma wrap64_id: "- (2 ^ 63) \<le> x \<Longrightarrow> x < 2 ^ 63 \<Longrightarrow> wrap64 x = x"
  by (simp add: wrap64_def)

lemma Resize_eq:
  assumes "- (2 ^ 63) \<le> int (Len c) - sz" and "int (Len c) - sz < 2 ^ 63"
  shows "Resize c sz = (max 0 (int (Len c) - sz),
                        (Resize_loop (nat (int (Len c) - sz)) c)\<lparr>size_c := sz\<rparr>)"
  using assms by (simp add: Resize_def Let_def wrap64_id max_def)

lemma Resize_nonneg_fields:
  assumes "distinct (evictList c)" and "0 \<le> sz" and "sz < 2 ^ 63" and "int (Len c) < 2 ^ 63"
  shows "(sz < int (Len c) \<longrightarrow>
            fst (Resize c sz) = int (Len c) - sz
          \<and> evictList (snd (Resize c sz)) = take (nat sz) (evictList c)
          \<and> evicted (snd (Resize c sz)) =
              evicted c @ (if onEvict c then map (entry_kv c) (rev (drop (nat sz) (evictList c)))
                           else [])
          \<and> items (snd (Resize c sz)) =
              filter (\<lambda>p. fst p \<notin> set (map (\<lambda>el. key (elems c ! el)) (drop (nat sz) (evictList c))))
                (items c)
          \<and> size_c (snd (Resize c sz)) = sz)
       \<and> (int (Len c) \<le> sz \<longrightarrow> Resize c sz = (0, c\<lparr>size_c := sz\<rparr>))"
proof -
  have r: "Resize c sz = (max 0 (int (Len c) - sz),
                        (Resize_loop (nat (int (Len c) - sz)) c)\<lparr>size_c := sz\<rparr>)"
    using assms by (intro Resize_eq) simp_all
  have grow: "int (Len c) \<le> sz \<Longrightarrow> Resize c sz = (0, c\<lparr>size_c := sz\<rparr>)"
    by (simp add: r)
  have shrink: "fst (Resize c sz) = int (Len c) - sz
          \<and> evictList (snd (Resize c sz)) = take (nat sz) (evictList c)
          \<and> evicted (snd (Resize c sz)) =
              evicted c @ (if onEvict c then map (entry_kv c) (rev (drop (nat sz) (evictList c)))
                           else [])
          \<and> items (snd (Resize c sz)) =
              filter (\<lambda>p. fst p \<notin> set (map (\<lambda>el. key (elems c ! el)) (drop (nat sz) (evictList c))))
                (items c)
          \<and> size_c (snd (Resize c sz)) = sz" if lt: "sz < int (Len c)"
  proof -
    let ?n = "nat (int (Len c) - sz)"
    have n: "length (evictList c) - ?n = nat sz" using lt assms(2) by (simp add: Len_def)
    have t: "take ?n (rev (evictList c)) = rev (drop (nat sz) (evictList c))"
      using n by (simp add: take_rev)
    show ?thesis
      using Resize_loop_fields[OF assms(1), of ?n] lt
      by (simp add: r n t)
  qed
  show ?thesis using grow shrink by blast
qed

text \<open>
  Claim C8, as the code has it. Take a cache whose list holds \<open>n\<close> elements and a new
  capacity \<open>sz\<close> that is not negative. If \<open>sz < n\<close>, \<^verbatim>\<open>Resize\<close> returns \<open>n - sz\<close>,
  keeps the \<open>sz\<close> front-most elements, fires the callback for the \<open>n - sz\<close> back-most
  entries from the oldest on, deletes their keys from the key index and stores \<open>sz\<close>.
  If \<open>n \<le> sz\<close> it returns 0 and only stores \<open>sz\<close>. For a negative \<open>sz\<close> the count
  returned is larger than the number of entries.
\<close>

theorem Resize_nonneg:
  assumes "distinct (evictList c)" and "0 \<le> sz" and "sz < 2 ^ 63" and "int (Len c) < 2 ^ 63"
  shows "(sz < int (Len c) \<longrightarrow>
            fst (Resize c sz) = int (Len c) - sz
          \<and> evictList (snd (Resize c sz)) = take (nat sz) (evictList c)
          \<and> evicted (snd (Resize c sz)) =
              evicted c @ (if onEvict c then map (entry_kv c) (rev (drop (nat sz) (evictList c)))
                           else [])
          \<and> items (snd (Resize c sz)) =
              filter (\<lambda>p. fst p \<notin> set (map (\<lambda>el. key (elems c ! el)) (drop (nat sz) (evictList c))))
                (items c)
          \<and> size_c (snd (Resize c sz)) = sz)
       \<and> (int (Len c) \<le> sz \<longrightarrow> Resize c sz = (0, c\<lparr>size_c := sz\<rparr>))"
  using assms by (rule Resize_nonneg_fields)

lemma Add_nonpositive:
  assumes "evictList c = []" and "size_c c \<le> 0" and "map_of (items c) k = None"
  shows "fst (Add c k v ts) \<and> evictList (snd (Add c k v ts)) = []
       \<and> size_c (snd (Add c k v ts)) = size_c c
       \<and> onEvict (snd (Add c k v ts)) = onEvict c
       \<and> items (snd (Add c k v ts)) = items c
       \<and> evicted (snd (Add c k v ts)) = evicted c @ (if onEvict c then [(k, v)] else [])"
proof -
  have "k \<notin> fst ` set (items c)" using assms(3) by (simp add: map_of_eq_None_iff)
  then show ?thesis
    using assms by (simp add: Add_eq removeOldest_eq delete_update_same)
qed

lemma Add_all_nonpositive:
  assumes "evictList c = []" and "size_c c \<le> 0" and "\<forall>k\<in>set (map fst kvs). map_of (items c) k = None"
  shows "fst (Add_all c kvs) = replicate (length kvs) True
       \<and> evictList (snd (Add_all c kvs)) = []
       \<and> size_c (snd (Add_all c kvs)) = size_c c
       \<and> onEvict (snd (Add_all c kvs)) = onEvict c
       \<and> items (snd (Add_all c kvs)) = items c
       \<and> evicted (snd (Add_all c kvs)) =
           evicted c @ (if onEvict c then map (\<lambda>(k, v, ts). (k, v)) kvs else [])"
  using assms
proof (induction kvs arbitrary: c)
  case Nil
  then show ?case by simp
next
  case (Cons x kvs)
  obtain k v ts where x: "x = (k, v, ts)" by (cases x)
  have new: "map_of (items c) k = None" using Cons.prems(3) x by simp
  note a = Add_nonpositive[OF Cons.prems(1,2) new, of v ts]
  have ih: "\<forall>k'\<in>set (map fst kvs). map_of (items (snd (Add c k v ts))) k' = None"
    using Cons.prems(3) a by simp
  from a Cons.prems(2) have sz: "size_c (snd (Add c k v ts)) \<le> 0" by simp
  from a have el: "evictList (snd (Add c k v ts)) = []" by simp
  show ?case
    using Cons.IH[OF el sz ih] a
    by (simp add: x Add_all_Cons del: Add_all.simps)
qed

text \<open>
  Claim C10, as the code has it. \<^verbatim>\<open>Resize\<close> takes a capacity \<open>sz \<le> 0\<close> without
  an error: it empties the list, fires the callback for every entry from the oldest on,
  stores \<open>sz\<close> and returns the previous length minus \<open>sz\<close> (the previous length itself
  only for \<open>sz = 0\<close>), as long as that difference fits a Go \<^verbatim>\<open>int\<close>. Every
  \<^verbatim>\<open>Add\<close> of a new key afterwards returns true and evicts the entry it just added.
\<close>

theorem Resize_nonpositive:
  assumes "distinct (evictList c)" and "sz \<le> 0" and "int (Len c) - sz < 2 ^ 63"
    and "Resize c sz = (r, c1)"
    and "\<forall>k\<in>set (map fst kvs). \<not> Contains c1 k"
    and "Add_all c1 kvs = (es, c2)"
  shows "r = int (Len c) - sz \<and> Len c1 = 0 \<and> size_c c1 = sz
       \<and> evicted c1 = evicted c @ (if onEvict c then map (entry_kv c) (rev (evictList c)) else [])
       \<and> es = replicate (length kvs) True \<and> Len c2 = 0 \<and> size_c c2 = sz
       \<and> evicted c2 = evicted c1 @ (if onEvict c then map (\<lambda>(k, v, ts). (k, v)) kvs else [])
       \<and> (\<forall>k\<in>set (map fst kvs). \<not> Contains c2 k)"
proof -
  have r: "Resize c sz = (max 0 (int (Len c) - sz),
                        (Resize_loop (nat (int (Len c) - sz)) c)\<lparr>size_c := sz\<rparr>)"
    using assms(2,3) by (intro Resize_eq) simp_all
  let ?n = "nat (int (Len c) - sz)"
  have n: "length (evictList c) \<le> ?n" using assms(2) by (simp add: Len_def)
  note f = Resize_loop_fields[OF assms(1), of ?n]
  have c1: "r = int (Len c) - sz \<and> evictList c1 = [] \<and> size_c c1 = sz \<and> onEvict c1 = onEvict c
     \<and> evicted c1 = evicted c @ (if onEvict c then map (entry_kv c) (rev (evictList c)) else [])"
    using assms(2,4) f n by (auto simp add: r)
  have new: "\<forall>k\<in>set (map fst kvs). map_of (items c1) k = None"
    using assms(5) by (simp add: Contains_def)
  from c1 assms(2) have sz: "size_c c1 \<le> 0" by simp
  from c1 have el: "evictList c1 = []" by simp
  note a = Add_all_nonpositive[OF el sz new]
  show ?thesis using a c1 assms(6) new by (auto simp add: Len_def Contains_def)
qed

theorem Resize_nonneg_witness:
  "distinct (evictList (run (emptyLRU 3 True)
      [CallAdd ''a'' (1::nat) [], CallAdd ''b'' 2 [], CallAdd ''c'' 3 []]))
   \<and> fst (Resize (run (emptyLRU 3 True)
      [CallAdd ''a'' (1::nat) [], CallAdd ''b'' 2 [], CallAdd ''c'' 3 []]) 1) = 2
   \<and> evictList (snd (Resize (run (emptyLRU 3 True)
      [CallAdd ''a'' (1::nat) [], CallAdd ''b'' 2 [], CallAdd ''c'' 3 []]) 1)) = [2]
   \<and> evicted (snd (Resize (run (emptyLRU 3 True)
      [CallAdd ''a'' (1::nat) [], CallAdd ''b'' 2 [], CallAdd ''c'' 3 []]) 1))
       = [(''a'', 1), (''b'', 2)]"
  using Resize_nonneg[of "run (emptyLRU 3 True)
      [CallAdd ''a'' (1::nat) [], CallAdd ''b'' 2 [], CallAdd ''c'' 3 []]" 1]
  by (simp add: exec Len_def entry_kv_def)

text \<open>
  Claim C8 as stated covers every new capacity below the number of entries. For a
  negative capacity it fails: a cache holding one entry, resized to \<open>-1\<close>, returns 2, and
  one entry was there to evict.
\<close>

theorem Resize_negative_overcounts:
  "Len (run (emptyLRU 1 True) [CallAdd ''k'' (1::nat) []]) = 1
   \<and> fst (Resize (run (emptyLRU 1 True) [CallAdd ''k'' (1::nat) []]) (- 1)) = 2
   \<and> evicted (snd (Resize (run (emptyLRU 1 True) [CallAdd ''k'' (1::nat) []]) (- 1)))
       = [(''k'', 1)]"
  by (simp add: exec Len_def Resize_def wrap64_def eval_nat_numeral)

theorem Resize_nonpositive_witness:
  "distinct (evictList (run (emptyLRU 2 True) [CallAdd ''a'' (1::nat) [], CallAdd ''b'' 2 []]))
   \<and> fst (Resize (run (emptyLRU 2 True) [CallAdd ''a'' (1::nat) [], CallAdd ''b'' 2 []]) (- 1)) = 3
   \<and> fst (Add_all (snd (Resize (run (emptyLRU 2 True)
          [CallAdd ''a'' (1::nat) [], CallAdd ''b'' 2 []]) (- 1)))
        [(''c'', 3, []), (''d'', 4, [])]) = [True, True]"
  using Resize_nonpositive[of "run (emptyLRU 2 True) [CallAdd ''a'' (1::nat) [], CallAdd ''b'' 2 []]"
     "- 1"
     "fst (Resize (run (emptyLRU 2 True) [CallAdd ''a'' (1::nat) [], CallAdd ''b'' 2 []]) (- 1))"
     "snd (Resize (run (emptyLRU 2 True) [CallAdd ''a'' (1::nat) [], CallAdd ''b'' 2 []]) (- 1))"
     "[(''c'', 3, []), (''d'', 4, [])]"
     "fst (Add_all (snd (Resize (run (emptyLRU 2 True)
          [CallAdd ''a'' (1::nat) [], CallAdd ''b'' 2 []]) (- 1)))
        [(''c'', 3, []), (''d'', 4, [])])"
     "snd (Add_all (snd (Resize (run (emptyLRU 2 True)
          [CallAdd ''a'' (1::nat) [], CallAdd ''b'' 2 []]) (- 1)))
        [(''c'', 3, []), (''d'', 4, [])])"]
  by (simp add: exec Len_def Resize_def wrap64_def Contains_def eval_nat_numeral)

text \<open>
  Claim C10 as stated says that the call returns the previous length. For a negative
  capacity it does not: a new cache (length 0) resized to \<open>-1\<close> returns 1.
\<close>

theorem Resize_negative_return:
  "Len (emptyLRU 1 False :: (string, nat) LRU) = 0
   \<and> fst (Resize (emptyLRU 1 False :: (string, nat) LRU) (- 1)) = 1"
  by (simp add: Len_def Resize_def wrap64_def removeOldest_eq)

section \<open>The capacity bound\<close>

lemma Add_all_append:
  "Add_all c (xs @ ys) =
     (fst (Add_all c xs) @ fst (Add_all (snd (Add_all c xs)) ys),
      snd (Add_all (snd (Add_all c xs)) ys))"
proof (induction xs arbitrary: c)
  case Nil
  then show ?case by simp
next
  case (Cons x xs)
  obtain k v ts where x: "x = (k, v, ts)" by (cases x)
  show ?case using Cons.IH[of "snd (Add c k v ts)"]
    by (simp add: x Add_all_Cons del: Add_all.simps)
qed

lemma update_new: "k \<notin> fst ` set al \<Longrightarrow> AList.update k v al = al @ [(k, v)]"
  by (induction al) auto

lemma Add_room:
  assumes "map_of (items c) k = None" and "int (length (evictList c)) < size_c c"
  shows "\<not> fst (Add c k v ts)
       \<and> evictList (snd (Add c k v ts)) = length (elems c) # evictList c
       \<and> elems (snd (Add c k v ts)) = elems c @ [new_entry (k, v, ts)]
       \<and> items (snd (Add c k v ts)) = items c @ [(k, length (elems c))]
       \<and> evicted (snd (Add c k v ts)) = evicted c
       \<and> size_c (snd (Add c k v ts)) = size_c c
       \<and> onEvict (snd (Add c k v ts)) = onEvict c"
proof -
  have "k \<notin> fst ` set (items c)" using assms(1) by (simp add: map_of_eq_None_iff)
  then show ?thesis using assms by (simp add: Add_eq update_new new_entry_def)
qed

lemma Add_all_room:
  assumes "distinct (map fst kvs)"
    and "\<forall>k\<in>set (map fst kvs). map_of (items c) k = None"
    and "int (length (evictList c)) + int (length kvs) \<le> size_c c"
  shows "fst (Add_all c kvs) = replicate (length kvs) False
       \<and> evictList (snd (Add_all c kvs)) =
           rev [length (elems c) ..< length (elems c) + length kvs] @ evictList c
       \<and> elems (snd (Add_all c kvs)) = elems c @ map new_entry kvs
       \<and> items (snd (Add_all c kvs)) =
           items c @ zip (map fst kvs) [length (elems c) ..< length (elems c) + length kvs]
       \<and> evicted (snd (Add_all c kvs)) = evicted c
       \<and> size_c (snd (Add_all c kvs)) = size_c c
       \<and> onEvict (snd (Add_all c kvs)) = onEvict c"
  using assms
proof (induction kvs arbitrary: c)
  case Nil
  then show ?case by simp
next
  case (Cons x kvs)
  obtain k v ts where x: "x = (k, v, ts)" by (cases x)
  let ?c = "snd (Add c k v ts)"
  have new: "map_of (items c) k = None" using Cons.prems(2) x by simp
  have room: "int (length (evictList c)) < size_c c" using Cons.prems(3) by simp
  note a = Add_room[OF new room, of v ts]
  have d: "distinct (map fst kvs)" and nk: "k \<notin> set (map fst kvs)"
    using Cons.prems(1) x by simp_all
  have ih2: "\<forall>k'\<in>set (map fst kvs). map_of (items ?c) k' = None"
    using Cons.prems(2) a nk by (auto simp add: map_of_eq_None_iff)
  have ih3: "int (length (evictList ?c)) + int (length kvs) \<le> size_c ?c"
    using Cons.prems(3) a by simp
  have u: "[length (elems c) ..< Suc (length (elems c) + length kvs)] =
           length (elems c) # [Suc (length (elems c)) ..< Suc (length (elems c) + length kvs)]"
    by (rule upt_conv_Cons) simp
  show ?case
    using Cons.IH[OF d ih2 ih3] a
    by (simp add: x Add_all_Cons u del: Add_all.simps upt_Suc)
qed

text \<open>
  Claim C6. On a new cache of capacity \<open>n\<close>, \<open>n + 1\<close> calls of \<^verbatim>\<open>Add\<close> with
  different keys (values and tags arbitrary): the first \<open>n\<close> calls return false and the
  last one returns true; the callback (when there is one) fired once, for the first key
  and its value; the first key is gone, every other key is contained, and the cache
  holds \<open>n\<close> entries.
\<close>

theorem capacity_bound:
  assumes "NewLRU n cb = Inr c0"
    and "length kvs = nat n + 1" and "distinct (map fst kvs)"
    and "Add_all c0 kvs = (es, c)"
  shows "es = replicate (nat n) False @ [True]
       \<and> evicted c = (if cb then [(fst (hd kvs), fst (snd (hd kvs)))] else [])
       \<and> \<not> Contains c (fst (hd kvs))
       \<and> (\<forall>k\<in>set (map fst (tl kvs)). Contains c k)
       \<and> Len c = nat n"
proof -
  from NewLRU_Inr[OF assms(1)] have n: "0 < n" and c0: "c0 = emptyLRU n cb" by simp_all
  have "kvs \<noteq> []" using assms(2) by auto
  then obtain xs x where "kvs = xs @ [x]" by (cases kvs rule: rev_cases) auto
  then obtain k v ts where kvs: "kvs = xs @ [(k, v, ts)]" by (cases x) auto
  have len: "length xs = nat n" using assms(2) kvs by simp
  have xs_ne: "xs \<noteq> []" using len n by auto
  have dxs: "distinct (map fst xs)" and knew: "k \<notin> set (map fst xs)"
    using assms(3) kvs by simp_all
  let ?c1 = "snd (Add_all c0 xs)"
  have room: "int (length (evictList c0)) + int (length xs) \<le> size_c c0"
    using n by (simp add: c0 len)
  have new0: "\<forall>k\<in>set (map fst xs). map_of (items c0) k = None" by (simp add: c0)
  have r: "fst (Add_all c0 xs) = replicate (nat n) False
       \<and> evictList ?c1 = rev [0 ..< nat n]
       \<and> elems ?c1 = map new_entry xs
       \<and> items ?c1 = zip (map fst xs) [0 ..< nat n]
       \<and> evicted ?c1 = [] \<and> size_c ?c1 = n \<and> onEvict ?c1 = cb"
    using Add_all_room[OF dxs new0 room] by (simp add: len) (simp add: c0)
  have hd: "hd kvs = hd xs" and tl: "tl kvs = tl xs @ [(k, v, ts)]" using xs_ne kvs by simp_all
  obtain k0 v0 ts0 where h: "hd xs = (k0, v0, ts0)" by (cases "hd xs")
  have k0: "k0 \<in> set (map fst xs)" using xs_ne h by (metis fst_conv hd_in_set image_eqI set_map)
  have kk0: "k \<noteq> k0" using k0 knew by auto
  have e0: "elems ?c1 ! 0 = new_entry (k0, v0, ts0)"
    using r xs_ne h by (simp add: hd_conv_nth[symmetric] hd_map)
  have lst: "last (rev [0 ..< nat n]) = 0" using n by (simp add: last_rev hd_upt)
  have dom: "fst ` set (items ?c1) = set (map fst xs)"
    using r len by (metis length_map length_upt map_fst_zip minus_nat.diff_0 set_map order_refl)
  have knew': "map_of (items ?c1) k = None" using knew dom by (simp add: map_of_eq_None_iff)
  let ?c2 = "snd (Add ?c1 k v ts)"
  have a: "fst (Add ?c1 k v ts)
       \<and> evictList ?c2 = remove1 0 (nat n # rev [0 ..< nat n])
       \<and> evicted ?c2 = (if cb then [(k0, v0)] else [])
       \<and> items ?c2 = AList.delete k0 (AList.update k (nat n) (items ?c1))"
    using Add_new[OF knew', of v ts] r e0 lst xs_ne len n
    by (simp add: Let_def removeOldest_eq nth_append new_entry_def)
  have all: "Add_all c0 kvs = (replicate (nat n) False @ [True], ?c2)"
    using r a by (simp add: kvs Add_all_append Add_all_Cons del: Add_all.simps(2))
  with assms(4) have es: "es = replicate (nat n) False @ [True]" and c: "c = ?c2" by simp_all
  have ev: "evicted c = (if cb then [(fst (hd kvs), fst (snd (hd kvs)))] else [])"
    using a by (simp add: c hd h)
  have gone: "\<not> Contains c (fst (hd kvs))"
    using a by (simp add: c hd h Contains_def delete_conv')
  have "0 \<in> set (nat n # rev [0 ..< nat n])" using n by simp
  then have ln: "Len c = nat n" using a by (simp add: c Len_def length_remove1)
  have "xs = (k0, v0, ts0) # tl xs" using xs_ne h by (metis list.collapse)
  then have "distinct (map fst ((k0, v0, ts0) # tl xs))" using dxs by (rule subst)
  then have nk0: "k0 \<notin> set (map fst (tl xs))" by simp
  have sub: "set (map fst (tl xs)) \<subseteq> set (map fst xs)" by (cases xs) auto
  have kept: "\<forall>k'\<in>set (map fst (tl kvs)). Contains c k'"
  proof
    fix k' assume "k' \<in> set (map fst (tl kvs))"
    then consider "k' = k" | "k' \<in> set (map fst (tl xs))" by (auto simp add: tl)
    then show "Contains c k'"
    proof cases
      case 1
      then show ?thesis using a kk0 by (simp add: c Contains_def delete_conv' update_conv')
    next
      case 2
      with nk0 have ne: "k' \<noteq> k0" by auto
      from 2 sub dom have "k' \<in> fst ` set (items ?c1)" by auto
      then have "map_of (items ?c1) k' \<noteq> None" by (simp add: map_of_eq_None_iff)
      then show ?thesis using a ne by (simp add: c Contains_def delete_conv' update_conv')
    qed
  qed
  show ?thesis using es ev gone kept ln by simp
qed

theorem capacity_bound_witness:
  "NewLRU 2 True = Inr (emptyLRU 2 True)
   \<and> length [(''a'', 1::nat, []), (''b'', 2, [''t'']), (''c'', 3, [])] = nat 2 + 1
   \<and> distinct (map fst [(''a'', 1::nat, []), (''b'', 2, [''t'']), (''c'', 3, [])])
   \<and> fst (Add_all (emptyLRU 2 True) [(''a'', 1::nat, []), (''b'', 2, [''t'']), (''c'', 3, [])])
       = replicate (nat 2) False @ [True]
   \<and> evicted (snd (Add_all (emptyLRU 2 True)
         [(''a'', 1::nat, []), (''b'', 2, [''t'']), (''c'', 3, [])])) = [(''a'', 1)]"
  using capacity_bound[of 2 True "emptyLRU 2 True"
     "[(''a'', 1::nat, []), (''b'', 2, [''t'']), (''c'', 3, [])]"
     "fst (Add_all (emptyLRU 2 True) [(''a'', 1::nat, []), (''b'', 2, [''t'']), (''c'', 3, [])])"
     "snd (Add_all (emptyLRU 2 True) [(''a'', 1::nat, []), (''b'', 2, [''t'']), (''c'', 3, [])])"]
  by (simp add: NewLRU_def del: Add_all.simps)

section \<open>The key index and the list\<close>

lemma fold_tag_step:
  "fold (tag_step el) ts m t =
     (if t \<in> set ts
      then Some (case m t of None \<Rightarrow> [el] | Some b \<Rightarrow> if el \<in> set b then b else b @ [el])
      else m t)"
  by (induction ts arbitrary: m) (auto simp add: tag_step_eq split: option.splits)

lemma fold_untag_step:
  "fold (untag_step el) ts m t =
     (if t \<in> set ts
      then (case m t of None \<Rightarrow> None
            | Some b \<Rightarrow> if removeAll el b = [] then None else Some (removeAll el b))
      else m t)"
  by (induction ts arbitrary: m) (auto simp add: untag_step_eq split: option.splits)

lemma invar_lengths:
  assumes "invar c"
  shows "length (items c) = length (evictList c)"
proof -
  from assms have d: "distinct (map fst (items c))" and dl: "distinct (evictList c)"
    and m: "\<And>k e. (k, e) \<in> set (items c) \<longleftrightarrow> e \<in> set (evictList c) \<and> key (elems c ! e) = k"
    by (simp_all add: invar_def)
  have di: "distinct (items c)" using d by (simp add: distinct_map)
  have "inj_on snd (set (items c))"
    by (rule inj_onI) (use m in fastforce)
  with di have ds: "distinct (map snd (items c))" by (simp add: distinct_map)
  have "set (map snd (items c)) = set (evictList c)"
    using m by force
  with ds dl have "length (map snd (items c)) = length (evictList c)"
    by (metis distinct_card)
  then show ?thesis by simp
qed

lemma invar_removeElement:
  assumes "invar c" and "el \<in> set (evictList c)"
  shows "invar (removeElement c el)"
proof -
  from assms have d: "distinct (map fst (items c))" and dl: "distinct (evictList c)"
    and lt: "\<forall>e\<in>set (evictList c). e < length (elems c)"
    and m: "\<And>k e. (k, e) \<in> set (items c) \<longleftrightarrow> e \<in> set (evictList c) \<and> key (elems c ! e) = k"
    and tg: "\<And>t b. tags c t = Some b \<Longrightarrow>
          distinct b \<and> (\<forall>e\<in>set b. e \<in> set (evictList c) \<and> t \<in> set (tags_e (elems c ! e)))"
    by (simp_all add: invar_def)
  let ?k = "key (elems c ! el)"
  have own: "(?k, el) \<in> set (items c)" using m assms(2) by simp
  have uniq: "e = el" if "e \<in> set (evictList c)" "key (elems c ! e) = ?k" for e
  proof -
    from that m have "(?k, e) \<in> set (items c)" by simp
    with own d show ?thesis by (metis eq_key_imp_eq_value)
  qed
  have i4: "(k, e) \<in> set (AList.delete ?k (items c)) \<longleftrightarrow>
              e \<in> set (remove1 el (evictList c)) \<and> key (elems c ! e) = k" for k e
    using m dl uniq by (auto simp add: AList.delete_eq)
  have i5: "distinct b \<and> (\<forall>e\<in>set b. e \<in> set (remove1 el (evictList c)) \<and> t \<in> set (tags_e (elems c ! e)))"
    if "fold (untag_step el) (tags_e (elems c ! el)) (tags c) t = Some b" for t b
    using that tg[of t] dl
    by (auto simp add: fold_untag_step distinct_removeAll split: if_splits option.splits)
  show ?thesis
    unfolding invar_def
    using dl lt d i4 i5
    by (simp add: distinct_delete)
qed


lemma invar_removeOldest: "invar c \<Longrightarrow> invar (removeOldest c)"
  by (simp add: removeOldest_eq invar_removeElement)

lemma invar_Add_existing:
  assumes "invar c" and "map_of (items c) k = Some el"
    and "set (tags_e (elems c ! el)) \<subseteq> set ts"
  shows "invar (snd (Add c k v ts))"
proof -
  from assms(1) have d: "distinct (map fst (items c))" and dl: "distinct (evictList c)"
    and lt: "\<forall>e\<in>set (evictList c). e < length (elems c)"
    and m: "\<And>k e. (k, e) \<in> set (items c) \<longleftrightarrow> e \<in> set (evictList c) \<and> key (elems c ! e) = k"
    and tg: "\<And>t b. tags c t = Some b \<Longrightarrow>
          distinct b \<and> (\<forall>e\<in>set b. e \<in> set (evictList c) \<and> t \<in> set (tags_e (elems c ! e)))"
    by (simp_all add: invar_def)
  have "(k, el) \<in> set (items c)" using assms(2) by (rule map_of_SomeD)
  then have el: "el \<in> set (evictList c)" using m by simp
  then have ell: "el < length (elems c)" using lt by simp
  let ?es = "(elems c)[el := (elems c ! el)\<lparr>value_e := v, tags_e := ts\<rparr>]"
  have ky: "key (?es ! e) = key (elems c ! e)" for e
    using ell by (cases "e = el") simp_all
  have tgs: "tags_e (?es ! e) = (if e = el then ts else tags_e (elems c ! e))" for e
    using ell by simp
  have i5: "distinct b \<and> (\<forall>e\<in>set b. e \<in> set (evictList c) \<and> t \<in> set (tags_e (?es ! e)))"
    if "fold (tag_step el) ts (fold (untag_step el) ts (tags c)) t = Some b" for t b
  proof (cases "t \<in> set ts")
    case True
    show ?thesis
    proof (cases "tags c t")
      case None
      with that True el show ?thesis by (auto simp add: fold_tag_step fold_untag_step tgs)
    next
      case (Some b0)
      with that True el tg[OF Some] show ?thesis
        by (auto simp add: fold_tag_step fold_untag_step tgs distinct_removeAll
              split: if_splits)
    qed
  next
    case False
    with that have s: "tags c t = Some b" by (simp add: fold_tag_step fold_untag_step)
    have "el \<notin> set b" using tg[OF s] False assms(3) by auto
    with tg[OF s] show ?thesis by (auto simp add: tgs)
  qed
  show ?thesis
    unfolding invar_def
    using dl lt d m el i5
    by (auto simp add: Add_existing[OF assms(2)] list_MoveToFront_def ky)
qed

lemma invar_Add_new:
  assumes "invar c" and "map_of (items c) k = None"
  shows "invar (snd (Add c k v ts))"
proof -
  from assms(1) have d: "distinct (map fst (items c))" and dl: "distinct (evictList c)"
    and lt: "\<forall>e\<in>set (evictList c). e < length (elems c)"
    and m: "\<And>k e. (k, e) \<in> set (items c) \<longleftrightarrow> e \<in> set (evictList c) \<and> key (elems c ! e) = k"
    and tg: "\<And>t b. tags c t = Some b \<Longrightarrow>
          distinct b \<and> (\<forall>e\<in>set b. e \<in> set (evictList c) \<and> t \<in> set (tags_e (elems c ! e)))"
    by (simp_all add: invar_def)
  let ?n = "length (elems c)"
  let ?es = "elems c @ [\<lparr>key = k, value_e = v, tags_e = ts\<rparr>]"
  let ?c3 = "c\<lparr>evictList := ?n # evictList c,
                items := AList.update k ?n (items c),
                tags := fold (tag_step ?n) ts (tags c),
                elems := ?es\<rparr>"
  have fresh: "?n \<notin> set (evictList c)" using lt by auto
  have knew: "k \<notin> fst ` set (items c)" using assms(2) by (simp add: map_of_eq_None_iff)
  have old: "?es ! e = elems c ! e" if "e \<in> set (evictList c)" for e
    using that lt by (simp add: nth_append)
  have i4: "(k', e) \<in> set (AList.update k ?n (items c)) \<longleftrightarrow>
              e \<in> set (?n # evictList c) \<and> key (?es ! e) = k'" for k' e
    using m fresh old by (auto simp add: update_new[OF knew])
  have i5: "distinct b \<and> (\<forall>e\<in>set b. e \<in> set (?n # evictList c) \<and> t \<in> set (tags_e (?es ! e)))"
    if "fold (tag_step ?n) ts (tags c) t = Some b" for t b
  proof (cases "tags c t")
    case None
    with that show ?thesis by (auto simp add: fold_tag_step split: if_splits)
  next
    case (Some b0)
    have "?n \<notin> set b0" using tg[OF Some] fresh by auto
    with that Some tg[OF Some] old show ?thesis
      by (auto simp add: fold_tag_step split: if_splits)
  qed
  have c3: "invar ?c3"
    unfolding invar_def
    using dl lt d fresh i4 i5
    by (simp add: distinct_update less_Suc_eq)
  show ?thesis
    using c3 by (simp add: Add_new[OF assms(2)] Let_def invar_removeOldest)
qed

lemma invar_Add:
  assumes "invar c" and "call_ok c (CallAdd k v ts)"
  shows "invar (snd (Add c k v ts))"
proof (cases "map_of (items c) k")
  case None
  with assms(1) show ?thesis by (rule invar_Add_new)
next
  case (Some el)
  with assms show ?thesis by (simp add: invar_Add_existing)
qed

lemma invar_Get: "invar c \<Longrightarrow> invar (snd (Get c k))"
  by (auto simp add: Get_def invar_def list_MoveToFront_def split: option.splits)

lemma invar_Remove:
  assumes "invar c"
  shows "invar (snd (Remove c k))"
proof (cases "map_of (items c) k")
  case None
  with assms show ?thesis by (simp add: Remove_def)
next
  case (Some el)
  then have "(k, el) \<in> set (items c)" by (rule map_of_SomeD)
  with assms have "el \<in> set (evictList c)" by (simp add: invar_def)
  with assms Some show ?thesis by (simp add: Remove_def invar_removeElement)
qed

lemma invar_RemoveOldest: "invar c \<Longrightarrow> invar (snd (RemoveOldest c))"
  by (simp add: RemoveOldest_def list_Back_def Let_def invar_removeElement)

lemma invar_Resize_loop: "invar c \<Longrightarrow> invar (Resize_loop n c)"
  by (induction n arbitrary: c) (simp_all add: invar_removeOldest)

lemma invar_size_c [simp]: "invar (c\<lparr>size_c := s\<rparr>) = invar c"
  by (simp add: invar_def)

lemma invar_Resize: "invar c \<Longrightarrow> invar (snd (Resize c sz))"
  by (simp add: Resize_def Let_def invar_Resize_loop)

lemma invar_Invalidate_bucket:
  assumes "invar c" and "distinct els" and "set els \<subseteq> set (evictList c)"
  shows "invar (fst (Invalidate_bucket els c r))"
  using assms
proof (induction els arbitrary: c r)
  case Nil
  then show ?case by simp
next
  case (Cons el els)
  have "invar (removeElement c el)" using Cons.prems by (simp add: invar_removeElement)
  moreover have "set els \<subseteq> set (evictList (removeElement c el))"
    using Cons.prems by (auto simp add: invar_def)
  ultimately show ?case using Cons.IH Cons.prems(2) by simp
qed

lemma invar_Invalidate_loop: "invar c \<Longrightarrow> invar (fst (Invalidate_loop ts c r))"
proof (induction ts arbitrary: c r)
  case Nil
  then show ?case by simp
next
  case (Cons t ts)
  show ?case
  proof (cases "tags c t")
    case None
    with Cons show ?thesis by simp
  next
    case (Some els)
    with Cons.prems have "distinct els" and "set els \<subseteq> set (evictList c)"
      by (auto simp add: invar_def)
    with Cons.prems have "invar (fst (Invalidate_bucket els c r))"
      by (rule invar_Invalidate_bucket)
    with Cons.IH Some show ?thesis by (simp add: case_prod_unfold)
  qed
qed

lemma invar_Invalidate: "invar c \<Longrightarrow> invar (snd (Invalidate c ts))"
  using invar_Invalidate_loop[of c ts 0] by (simp add: Invalidate_def case_prod_unfold)

lemma Purge_loop_items:
  "items (Purge_loop xs c) = filter (\<lambda>p. fst p \<notin> fst ` set xs) (items c)"
proof (induction xs arbitrary: c)
  case Nil
  then show ?case by simp
next
  case (Cons x xs)
  obtain k e where x: "x = (k, e)" by (cases x)
  show ?case
    by (auto simp add: x Cons.IH AList.delete_eq call_onEvict_def intro!: filter_cong)
qed

lemma Purge_loop_size_c: "size_c (Purge_loop xs c) = size_c c"
proof (induction xs arbitrary: c)
  case Nil
  then show ?case by simp
next
  case (Cons x xs)
  obtain k e where x: "x = (k, e)" by (cases x)
  show ?case by (simp add: x Cons.IH)
qed

lemma Purge_fields:
  "items (Purge c) = []" "evictList (Purge c) = []" "tags (Purge c) = Map.empty"
  "size_c (Purge c) = size_c c"
  by (simp_all add: Purge_def Purge_loop_items Purge_loop_size_c)

lemma invar_Purge: "invar (Purge c)"
  by (simp add: invar_def Purge_fields)

lemma invar_step: "invar c \<Longrightarrow> call_ok c x \<Longrightarrow> invar (step c x)"
  by (cases x)
     (simp_all add: invar_Add invar_Get invar_Remove invar_RemoveOldest invar_Resize
        invar_Invalidate invar_Purge)


lemma boundedI:
  "bounded c \<Longrightarrow> size_c c' = size_c c \<Longrightarrow> length (evictList c') \<le> length (evictList c)
     \<Longrightarrow> bounded c'"
  by (simp add: bounded_def)

lemma Suc_length_remove1: "x \<in> set xs \<Longrightarrow> Suc (length (remove1 x xs)) = length xs"
  by (induction xs) auto

lemma length_list_MoveToFront [simp]: "length (list_MoveToFront el l) = length l"
  by (simp add: list_MoveToFront_def Suc_length_remove1)

lemma removeElement_shrinks:
  "length (evictList (removeElement c el)) \<le> length (evictList c)"
  by (simp add: length_remove1)

lemma removeOldest_shrinks:
  "size_c (removeOldest c) = size_c c"
  "length (evictList (removeOldest c)) \<le> length (evictList c)"
  by (simp_all add: removeOldest_eq length_remove1)

lemma bounded_Add:
  assumes "bounded c"
  shows "bounded (snd (Add c k v ts))"
proof (cases "map_of (items c) k")
  case None
  let ?l = "length (elems c) # evictList c"
  have "last ?l \<in> set ?l" by (rule last_in_set) simp
  then have "Suc (length (remove1 (last ?l) ?l)) = length ?l" by (rule Suc_length_remove1)
  then have r: "length (remove1 (last ?l) ?l) = length (evictList c)"
    by (simp del: last.simps remove1.simps)
  with assms None show ?thesis
    by (simp add: Add_new Let_def removeOldest_eq bounded_def del: last.simps remove1.simps)
next
  case (Some el)
  with assms show ?thesis by (simp add: Add_existing bounded_def)
qed

lemma bounded_Get: "bounded c \<Longrightarrow> bounded (snd (Get c k))"
  by (simp add: Get_def bounded_def split: option.splits)

lemma bounded_Remove: "bounded c \<Longrightarrow> bounded (snd (Remove c k))"
  by (auto simp add: Remove_def split: option.splits
        intro: boundedI[OF _ _ removeElement_shrinks])

lemma bounded_RemoveOldest: "bounded c \<Longrightarrow> bounded (snd (RemoveOldest c))"
  by (auto simp add: RemoveOldest_def Let_def split: option.splits
        intro: boundedI[OF _ _ removeElement_shrinks])

lemma Invalidate_bucket_shrinks:
  "size_c (fst (Invalidate_bucket els c r)) = size_c c
   \<and> length (evictList (fst (Invalidate_bucket els c r))) \<le> length (evictList c)"
proof (induction els arbitrary: c r)
  case Nil
  then show ?case by simp
next
  case (Cons el els)
  from Cons.IH[of "removeElement c el" "r + 1"] removeElement_shrinks[of c el]
  show ?case by simp
qed

lemma Invalidate_loop_shrinks:
  "size_c (fst (Invalidate_loop ts c r)) = size_c c
   \<and> length (evictList (fst (Invalidate_loop ts c r))) \<le> length (evictList c)"
proof (induction ts arbitrary: c r)
  case Nil
  then show ?case by simp
next
  case (Cons t ts)
  show ?case
  proof (cases "tags c t")
    case None
    with Cons.IH show ?thesis by simp
  next
    case (Some els)
    from Cons.IH[of "fst (Invalidate_bucket els c r)" "snd (Invalidate_bucket els c r)"]
      Invalidate_bucket_shrinks[of els c r] Some
    show ?thesis by (simp add: case_prod_unfold)
  qed
qed

lemma bounded_Invalidate: "bounded c \<Longrightarrow> bounded (snd (Invalidate c ts))"
  using Invalidate_loop_shrinks[of ts c 0]
  by (auto simp add: Invalidate_def case_prod_unfold intro: boundedI)

lemma bounded_Purge: "bounded c \<Longrightarrow> bounded (Purge c)"
  by (rule boundedI) (simp_all add: Purge_fields)

lemma bounded_Resize:
  assumes "bounded c" and "distinct (evictList c)" and "0 \<le> sz" and "sz < 2 ^ 63"
  shows "bounded (snd (Resize c sz))"
proof -
  from assms(1) have len: "int (Len c) < 2 ^ 63" by (simp add: bounded_def Len_def)
  have "int (length (evictList (snd (Resize c sz)))) \<le> sz"
  proof (cases "sz < int (Len c)")
    case True
    with Resize_nonneg_fields[OF assms(2,3,4) len] assms(3) show ?thesis by simp
  next
    case False
    with Resize_nonneg_fields[OF assms(2,3,4) len] show ?thesis by (simp add: Len_def)
  qed
  moreover have "size_c (snd (Resize c sz)) = sz" by (simp add: Resize_def Let_def)
  ultimately show ?thesis using assms(4) by (simp add: bounded_def)
qed

lemma step_keeps:
  assumes "invar c" and "bounded c" and "call_ok c x"
  shows "invar (step c x) \<and> bounded (step c x)"
proof
  show "invar (step c x)" using assms(1,3) by (rule invar_step)
  show "bounded (step c x)"
  proof (cases x)
    case (CallResize n)
    with assms show ?thesis by (simp add: bounded_Resize invar_def)
  qed (use assms(2) in \<open>simp_all add: bounded_Add bounded_Get bounded_Remove
         bounded_RemoveOldest bounded_Invalidate bounded_Purge\<close>)
qed

lemma run_keeps:
  "invar c \<Longrightarrow> bounded c \<Longrightarrow> calls_ok c calls \<Longrightarrow> invar (run c calls) \<and> bounded (run c calls)"
proof (induction calls arbitrary: c)
  case Nil
  then show ?case by simp
next
  case (Cons x calls)
  from Cons.prems have "invar (step c x) \<and> bounded (step c x)" by (simp add: step_keeps)
  with Cons.IH Cons.prems(3) show ?case by simp
qed

text \<open>
  As long as \<^verbatim>\<open>Add\<close> on an existing key is given at least the tags the entry has
  (and \<^verbatim>\<open>Resize\<close> a capacity that is not negative), the three structures stay
  consistent, and the list and the key index have the same number of entries.
\<close>

lemma sizes_agree_when_tags_kept:
  assumes "NewLRU n cb = Inr c0" and "n < 2 ^ 63" and "calls_ok c0 calls"
  shows "Len (run c0 calls) = length (items (run c0 calls))
       \<and> int (Len (run c0 calls)) \<le> size_c (run c0 calls)"
proof -
  from NewLRU_Inr[OF assms(1)] have n: "0 < n" and c0: "c0 = emptyLRU n cb" by simp_all
  have "invar c0" by (simp add: c0 invar_def)
  moreover have "bounded c0" using n assms(2) by (simp add: c0 bounded_def)
  ultimately have "invar (run c0 calls) \<and> bounded (run c0 calls)"
    using assms(3) by (rule run_keeps)
  then show ?thesis by (simp add: invar_lengths bounded_def Len_def)
qed


text \<open>
  Without the condition on \<^verbatim>\<open>Add\<close> the two lengths can differ: the calls that make
  \<^verbatim>\<open>Keys\<close> fail leave one element in the list and no key in the key index.
\<close>

lemma stale_bucket_shortens_index:
  "Len (run (emptyLRU 2 False)
      [CallAdd ''k'' (1::nat) [''a''], CallAdd ''k'' 2 [''b''], CallRemove ''k'',
       CallAdd ''k'' 3 [], CallInvalidate [''a'']]) = 1
   \<and> items (run (emptyLRU 2 False)
      [CallAdd ''k'' (1::nat) [''a''], CallAdd ''k'' 2 [''b''], CallRemove ''k'',
       CallAdd ''k'' 3 [], CallInvalidate [''a'']]) = []"
  by (simp add: exec Len_def)

section \<open>Both sizes stay within the capacity\<close>









lemma wf_index_size_c [simp]: "wf_index (c\<lparr>size_c := s\<rparr>) = wf_index c"
  by (simp add: wf_index_def)











section \<open>Invalidating an entry with two tags\<close>

lemma Invalidate_own_buckets:
  assumes "tags c t1 = Some [n]" and "tags c t2 = Some [n]"
    and "elems c ! n = \<lparr>key = k, value_e = v, tags_e = [t1, t2]\<rparr>"
  shows "fst (Invalidate c [t1, t2]) = 1
       \<and> evictList (snd (Invalidate c [t1, t2])) = remove1 n (evictList c)
       \<and> items (snd (Invalidate c [t1, t2])) = AList.delete k (items c)
       \<and> evicted (snd (Invalidate c [t1, t2])) =
           evicted c @ (if onEvict c then [(k, v)] else [])
       \<and> tags (snd (Invalidate c [t1, t2])) t1 = None
       \<and> tags (snd (Invalidate c [t1, t2])) t2 = None"
proof (cases "t1 = t2")
  case True
  with assms show ?thesis by (simp add: exec)
next
  case False
  with assms show ?thesis by (simp add: exec)
qed

text \<open>
  On a cache reached from a new one by calls that keep the three structures consistent,
  with a new key \<open>k\<close>, two tags (equal or not) that have no bucket and a positive
  capacity: after \<^verbatim>\<open>Add(k, v, t1, t2)\<close>, the call \<^verbatim>\<open>Invalidate([t1, t2])\<close>
  returns 1, fires the callback (when there is one) once, with \<open>k\<close> and \<open>v\<close>, and
  removes \<open>k\<close>. Removing the element for \<open>t1\<close> untags it from the bucket of \<open>t2\<close> as
  well, so the second tag finds no bucket.
\<close>

lemma Invalidate_two_tags_clean:
  assumes "NewLRU m cb = Inr c0" and "m < 2 ^ 63" and "calls_ok c0 calls"
    and "c = run c0 calls"
    and "\<not> Contains c k" and "tags c t1 = None" and "tags c t2 = None" and "0 < size_c c"
    and "Add c k v [t1, t2] = (e, c1)"
    and "Invalidate c1 [t1, t2] = (removed, c2)"
  shows "removed = 1
       \<and> evicted c2 = evicted c1 @ (if onEvict c then [(k, v)] else [])
       \<and> Contains c1 k \<and> \<not> Contains c2 k \<and> Len c2 + 1 = Len c1
       \<and> tags c2 t1 = None \<and> tags c2 t2 = None"
proof -
  from NewLRU_Inr[OF assms(1)] have m: "0 < m" and c0: "c0 = emptyLRU m cb" by simp_all
  have "invar c0" by (simp add: c0 invar_def)
  moreover have "bounded c0" using m assms(2) by (simp add: c0 bounded_def)
  ultimately have inv: "invar c" using assms(3,4) run_keeps by blast
  from inv have dl: "distinct (evictList c)"
    and lt: "\<forall>e\<in>set (evictList c). e < length (elems c)"
    and mm: "\<And>k e. (k, e) \<in> set (items c) \<longleftrightarrow> e \<in> set (evictList c) \<and> key (elems c ! e) = k"
    by (simp_all add: invar_def)
  have new: "map_of (items c) k = None" using assms(5) by (simp add: Contains_def)
  then have knew: "k \<notin> fst ` set (items c)" by (simp add: map_of_eq_None_iff)
  let ?n = "length (elems c)"
  let ?c3 = "c\<lparr>evictList := ?n # evictList c,
                items := AList.update k ?n (items c),
                tags := fold (tag_step ?n) [t1, t2] (tags c),
                elems := elems c @ [\<lparr>key = k, value_e = v, tags_e = [t1, t2]\<rparr>]\<rparr>"
  have b3: "tags ?c3 t1 = Some [?n]" "tags ?c3 t2 = Some [?n]"
    using assms(6,7) by (simp_all add: tag_step_eq)
  have c1: "tags c1 t1 = Some [?n] \<and> tags c1 t2 = Some [?n]
          \<and> elems c1 ! ?n = \<lparr>key = k, value_e = v, tags_e = [t1, t2]\<rparr>
          \<and> ?n \<in> set (evictList c1) \<and> map_of (items c1) k = Some ?n
          \<and> onEvict c1 = onEvict c"
  proof (cases "size_c c < int (length (evictList c)) + 1")
    case False
    with assms(9) have "c1 = ?c3" by (simp add: Add_new[OF new] Let_def)
    with b3 show ?thesis by (simp add: update_conv')
  next
    case True
    with assms(8) have ne: "evictList c \<noteq> []" by auto
    let ?o = "last (evictList c)"
    have o: "?o \<in> set (evictList c)" using ne by simp
    then have on: "?o < ?n" using lt by simp
    from o mm have "(key (elems c ! ?o), ?o) \<in> set (items c)" by simp
    with knew have ko: "key (elems c ! ?o) \<noteq> k" by force
    from True assms(9) ne have "c1 = removeElement ?c3 ?o"
      by (simp add: Add_new[OF new] Let_def removeOldest_eq)
    with b3 on ko show ?thesis
      by (auto simp add: fold_untag_step nth_append update_conv' delete_conv')
  qed
  note iv = Invalidate_own_buckets[of c1 t1 ?n t2 k v]
  from c1 have "Suc (length (remove1 ?n (evictList c1))) = length (evictList c1)"
    by (simp add: Suc_length_remove1)
  with iv c1 assms(10) show ?thesis
    by (auto simp add: Contains_def Len_def delete_conv')
qed

text \<open>
  Claim C5. An entry added with the tags \<open>[t1, t2]\<close> and invalidated with
  \<^verbatim>\<open>Invalidate([t1, t2])\<close> should be removed once, with one callback and a count
  of 1. On a reachable cache this fails. \<^verbatim>\<open>Add(k, v1, t1); Add(k, v2); Remove(k)\<close>
  leaves the removed element in the bucket of \<open>t1\<close>, because \<^verbatim>\<open>Add\<close> untagged the
  new (empty) tag list and not the old one. \<^verbatim>\<open>Add(k, v, t1, t2)\<close> then puts the new
  element into the same bucket, and \<^verbatim>\<open>Invalidate([t1, t2])\<close> removes both
  elements: it returns 2 and fires the callback twice for the key \<open>k\<close>, so that three
  callbacks have run where one ran before the call.
\<close>

theorem Invalidate_counts_dead_element:
  assumes "NewLRU n True = Inr c"
  shows "evicted (run c [CallAdd k v1 [''t1''], CallAdd k v2 [], CallRemove k,
                         CallAdd k v [''t1'', ''t2'']]) = [(k, v2)]
       \<and> fst (Invalidate (run c [CallAdd k v1 [''t1''], CallAdd k v2 [], CallRemove k,
                                 CallAdd k v [''t1'', ''t2'']]) [''t1'', ''t2'']) = 2
       \<and> length (evicted (snd (Invalidate
             (run c [CallAdd k v1 [''t1''], CallAdd k v2 [], CallRemove k,
                     CallAdd k v [''t1'', ''t2'']]) [''t1'', ''t2'']))) = 3
       \<and> set (evicted (snd (Invalidate
             (run c [CallAdd k v1 [''t1''], CallAdd k v2 [], CallRemove k,
                     CallAdd k v [''t1'', ''t2'']]) [''t1'', ''t2''])))
           = {(k, v2), (k, v)}"
  using NewLRU_Inr[OF assms] by (auto simp add: exec)

theorem Invalidate_counts_dead_element_witness:
  "NewLRU 2 True = Inr (emptyLRU 2 True)
   \<and> fst (Invalidate (run (emptyLRU 2 True)
         [CallAdd ''k'' (1::nat) [''t1''], CallAdd ''k'' 2 [], CallRemove ''k'',
          CallAdd ''k'' 7 [''t1'', ''t2'']]) [''t1'', ''t2'']) = 2"
  using Invalidate_counts_dead_element[of 2 "emptyLRU 2 True" "''k''" "1::nat" 2 7]
  by (simp add: NewLRU_def)

end
